theory Spec2Isabelle
  imports Main "HOL-Library.Word" "HOL-Library.Sublist"
begin

section \<open>JavaScript values used by api.js\<close>

text \<open>
  A Node \<open>Buffer\<close> is a sequence of bytes; \<^typ>\<open>char\<close> is exactly one byte.
  A JavaScript string is a sequence of UTF-16 code units. Indices and offsets are
  JavaScript numbers; every one that occurs is a small integer, so they are \<^typ>\<open>int\<close>
  (\<open>-1\<close> is the "not found" value of \<open>indexOf\<close>).
\<close>

type_synonym buffer = "char list"
type_synonym jsstring = "16 word list"

text \<open>An ASCII string literal of the source, as a JavaScript string.\<close>

definition asc :: "string \<Rightarrow> jsstring" where
  "asc s = map (\<lambda>c. of_nat (of_char c)) s"

text \<open>The exceptions that can reach the \<open>catch\<close> of the handler.\<close>

datatype js_error = TypeError | FetchError string

subsection \<open>Regular expressions\<close>

text \<open>
  In a JavaScript regular expression without the \<open>s\<close> flag, \<open>.\<close> matches every code
  unit but the four line terminators.
\<close>

definition line_terminator :: "16 word \<Rightarrow> bool" where
  "line_terminator c \<longleftrightarrow> c = 0x0A \<or> c = 0x0D \<or> c = 0x2028 \<or> c = 0x2029"

text \<open>
  \<open>String.prototype.match\<close> with a regular expression that has no \<open>g\<close> flag: the
  pattern is tried at every start position from left to right (the end of the string
  included), and the first position where it matches decides. The argument \<open>m\<close> is
  the pattern anchored at the start of its input; it returns capture group 1.
\<close>

fun regex_search :: "(jsstring \<Rightarrow> jsstring option) \<Rightarrow> jsstring \<Rightarrow> jsstring option" where
  "regex_search m [] = m []"
| "regex_search m (c # cs) =
     (case m (c # cs) of Some g \<Rightarrow> Some g | None \<Rightarrow> regex_search m cs)"

text \<open>
  \<open>/boundary=(.*)$/\<close> at a fixed start: the literal, then the greedy \<open>.*\<close> takes
  every code unit up to the first line terminator, then \<open>$\<close> (no \<open>m\<close> flag) demands
  the end of the input. A shorter \<open>.*\<close> ends even further from the end, so
  backtracking cannot help.
\<close>

definition boundary_at :: "jsstring \<Rightarrow> jsstring option" where
  "boundary_at s =
     (if prefix (asc ''boundary='') s then
        (let rest = drop 9 s;
             cap = takeWhile (\<lambda>c. \<not> line_terminator c) rest
         in if length cap = length rest then Some cap else None)
      else None)"

text \<open>
  \<open>/filename="(.+?)"/\<close> at a fixed start: the literal, then the lazy \<open>.+?\<close> takes
  one code unit (any but a line terminator, a double quote included) and then as few
  more as possible until a double quote follows.
\<close>

fun until_quote :: "jsstring \<Rightarrow> jsstring \<Rightarrow> jsstring option" where
  "until_quote cap [] = None"
| "until_quote cap (c # cs) =
     (if c = 0x22 then Some cap
      else if line_terminator c then None
      else until_quote (cap @ [c]) cs)"

definition filename_at :: "jsstring \<Rightarrow> jsstring option" where
  "filename_at s =
     (if prefix (asc ''filename='' @ [0x22]) s then
        (case drop 10 s of
           [] \<Rightarrow> None
         | c # cs \<Rightarrow> if line_terminator c then None else until_quote [c] cs)
      else None)"

subsection \<open>getBoundary (api.js, lines 10-13)\<close>

text \<open>
  The argument is \<open>req.headers["content-type"]\<close>: \<open>None\<close> is \<open>undefined\<close>, on which
  \<open>.match\<close> throws a TypeError. The result \<open>None\<close> is \<open>null\<close>.
\<close>

fun getBoundary :: "jsstring option \<Rightarrow> js_error + jsstring option" where
  "getBoundary None = Inl TypeError"
| "getBoundary (Some contentType) = Inr (regex_search boundary_at contentType)"

section \<open>Buffers\<close>

subsection \<open>UTF-8\<close>

text \<open>
  \<open>Buffer.from(string)\<close> encodes the UTF-16 string as UTF-8: a surrogate pair
  becomes the four bytes of its code point, a lone surrogate the three bytes of
  U+FFFD.
\<close>

definition utf8_bytes :: "nat \<Rightarrow> buffer" where
  "utf8_bytes cp =
     (if cp < 0x80 then [char_of cp]
      else if cp < 0x800 then [char_of (0xC0 + cp div 64), char_of (0x80 + cp mod 64)]
      else if cp < 0x10000 then
        [char_of (0xE0 + cp div 4096), char_of (0x80 + cp div 64 mod 64),
         char_of (0x80 + cp mod 64)]
      else
        [char_of (0xF0 + cp div 262144), char_of (0x80 + cp div 4096 mod 64),
         char_of (0x80 + cp div 64 mod 64), char_of (0x80 + cp mod 64)])"

definition high_surrogate :: "nat \<Rightarrow> bool" where
  "high_surrogate u \<longleftrightarrow> 0xD800 \<le> u \<and> u \<le> 0xDBFF"

definition low_surrogate :: "nat \<Rightarrow> bool" where
  "low_surrogate u \<longleftrightarrow> 0xDC00 \<le> u \<and> u \<le> 0xDFFF"

fun code_points :: "nat list \<Rightarrow> nat list" where
  "code_points [] = []"
| "code_points [u] = [if high_surrogate u \<or> low_surrogate u then 0xFFFD else u]"
| "code_points (u # v # us) =
     (if high_surrogate u \<and> low_surrogate v then
        (0x10000 + (u - 0xD800) * 1024 + (v - 0xDC00)) # code_points us
      else (if high_surrogate u \<or> low_surrogate u then 0xFFFD else u) # code_points (v # us))"

definition Buffer_from :: "jsstring \<Rightarrow> buffer" where
  "Buffer_from s = concat (map utf8_bytes (code_points (map unat s)))"

text \<open>
  \<open>buf.toString("utf8")\<close> decodes with replacement: every maximal ill-formed
  subsequence becomes U+FFFD, and the byte that ended it is read again. The state is
  the one of the WHATWG decoder: the code point so far, the continuation bytes still
  needed, and the bounds for the next byte.
\<close>

record utf8_state =
  code_point :: nat
  bytes_needed :: nat
  lower :: nat
  upper :: nat

definition utf8_init :: utf8_state where
  "utf8_init = \<lparr>code_point = 0, bytes_needed = 0, lower = 0x80, upper = 0xBF\<rparr>"

function utf8_decode :: "utf8_state \<Rightarrow> nat list \<Rightarrow> nat list" where
  "utf8_decode st [] = (if bytes_needed st \<noteq> 0 then [0xFFFD] else [])"
| "utf8_decode st (b # bs) =
     (if bytes_needed st = 0 then
        (if b \<le> 0x7F then b # utf8_decode st bs
         else if 0xC2 \<le> b \<and> b \<le> 0xDF then
           utf8_decode (st\<lparr>bytes_needed := 1, code_point := b mod 32\<rparr>) bs
         else if 0xE0 \<le> b \<and> b \<le> 0xEF then
           utf8_decode (st\<lparr>lower := (if b = 0xE0 then 0xA0 else 0x80),
                            upper := (if b = 0xED then 0x9F else 0xBF),
                            bytes_needed := 2, code_point := b mod 16\<rparr>) bs
         else if 0xF0 \<le> b \<and> b \<le> 0xF4 then
           utf8_decode (st\<lparr>lower := (if b = 0xF0 then 0x90 else 0x80),
                            upper := (if b = 0xF4 then 0x8F else 0xBF),
                            bytes_needed := 3, code_point := b mod 8\<rparr>) bs
         else 0xFFFD # utf8_decode st bs)
      else if b < lower st \<or> upper st < b then
        0xFFFD # utf8_decode utf8_init (b # bs)
      else if bytes_needed st = 1 then
        (code_point st * 64 + b mod 64) # utf8_decode utf8_init bs
      else
        utf8_decode \<lparr>code_point = code_point st * 64 + b mod 64,
                     bytes_needed = bytes_needed st - 1, lower = 0x80, upper = 0xBF\<rparr> bs)"
  by pat_completeness auto
termination
  by (relation "measure (\<lambda>(st, bs). 2 * length bs + (if bytes_needed st = 0 then 0 else 1))")
     (auto simp: utf8_init_def)

definition utf16_units :: "nat \<Rightarrow> jsstring" where
  "utf16_units cp =
     (if cp < 0x10000 then [of_nat cp]
      else [of_nat (0xD800 + (cp - 0x10000) div 1024), of_nat (0xDC00 + (cp - 0x10000) mod 1024)])"

definition toString :: "buffer \<Rightarrow> jsstring" where
  "toString buf = concat (map utf16_units (utf8_decode utf8_init (map of_char buf)))"

subsection \<open>slice and indexOf\<close>

text \<open>
  \<open>buf.slice(start, end)\<close>: a negative offset counts from the end, both offsets are
  clamped to the buffer, and the slice is empty when \<open>end\<close> is not beyond \<open>start\<close>.
  \<open>None\<close> for \<open>end\<close> is the omitted argument.
\<close>

definition adjustOffset :: "int \<Rightarrow> int \<Rightarrow> int" where
  "adjustOffset offset len =
     (if offset = 0 then 0
      else if offset < 0 then (if offset + len > 0 then offset + len else 0)
      else if offset < len then offset
      else len)"

definition slice :: "buffer \<Rightarrow> int \<Rightarrow> int option \<Rightarrow> buffer" where
  "slice buf start end =
     (let srcLength = int (length buf);
          s = adjustOffset start srcLength;
          e = (case end of Some x \<Rightarrow> adjustOffset x srcLength | None \<Rightarrow> srcLength);
          newLength = (if e > s then e - s else 0)
      in take (nat newLength) (drop (nat s) buf))"

text \<open>The first position at which \<open>needle\<close> starts in \<open>hay\<close>.\<close>

fun first_index :: "'a list \<Rightarrow> 'a list \<Rightarrow> nat option" where
  "first_index needle [] = (if needle = [] then Some 0 else None)"
| "first_index needle (x # xs) =
     (if prefix needle (x # xs) then Some 0 else map_option Suc (first_index needle xs))"

text \<open>
  \<open>buf.indexOf(value, byteOffset)\<close> searching forward: a negative offset counts from
  the end (and from 0 when it is before the start); an offset that leaves no room for
  the needle finds nothing, except that an empty needle is found at the end.
\<close>

definition indexOf :: "buffer \<Rightarrow> buffer \<Rightarrow> int \<Rightarrow> int" where
  "indexOf hay needle byteOffset =
     (let n = int (length hay);
          opt = (if byteOffset < 0 then (if byteOffset + n \<ge> 0 then n + byteOffset else 0)
                 else if byteOffset + int (length needle) \<le> n then byteOffset
                 else if needle = [] then n
                 else -1)
      in if needle = [] then opt
         else if hay = [] \<or> opt \<le> -1 then -1
         else (case first_index needle (drop (nat opt) hay) of
                 None \<Rightarrow> -1
               | Some i \<Rightarrow> opt + int i))"

section \<open>The handler (api.js, lines 15-91)\<close>

subsection \<open>Splitting the body into parts (lines 40-50)\<close>

text \<open>
  The \<open>while\<close> loop, with the variables \<open>start\<close> and \<open>parts\<close> as arguments.
  \<open>boundaryBuf\<close> is computed once before the loop in the source and is the same value
  in every iteration; it always begins with the two hyphens, so each iteration moves
  \<open>start\<close> forward.
\<close>

function split_loop :: "buffer \<Rightarrow> jsstring \<Rightarrow> int \<Rightarrow> buffer list \<Rightarrow> buffer list" where
  "split_loop body boundary start parts =
     (let boundaryBuf = Buffer_from (asc ''--'' @ boundary) in
      if start \<noteq> -1 then
        (let next = indexOf body boundaryBuf (start + int (length boundaryBuf)) in
         if next = -1 then parts
         else
           (let part = slice body (start + int (length boundaryBuf) + 2) (Some (next - 2))
            in split_loop body boundary next (parts @ [part])))
      else parts)"
  by pat_completeness auto
termination
proof (relation "measure (\<lambda>(body, boundary, start, parts).
          if start < 0 then Suc (length body) else nat (int (length body) - start))",
       goal_cases)
  case 1
  show ?case by simp
next
  case (2 body boundary start parts bb nxt)
  have fi: "first_index nd xs = Some i \<Longrightarrow> i + length nd \<le> length xs"
    for nd :: buffer and xs i
  proof (induction xs arbitrary: i)
    case Nil
    then show ?case by (simp split: if_splits)
  next
    case (Cons x xs)
    then show ?case by (auto split: if_splits dest: prefix_length_le)
  qed
  have cp: "code_points (45 # us) = 45 # code_points us" for us
    by (cases us) (simp_all add: high_surrogate_def low_surrogate_def)
  have len: "2 \<le> length bb"
    using 2(1) by (simp add: Buffer_from_def asc_def cp utf8_bytes_def)
  then have ne: "bb \<noteq> []" by auto
  let ?off = "start + int (length bb)"
  from 2(3,4) ne obtain opt i where
    opt: "opt = (if ?off < 0 then (if ?off + int (length body) \<ge> 0 then int (length body) + ?off else 0)
                 else ?off)"
    and ok: "?off < 0 \<or> ?off + int (length bb) \<le> int (length body)"
    and i: "first_index bb (drop (nat opt) body) = Some i"
    and nxt: "nxt = opt + int i"
    by (auto simp: indexOf_def Let_def split: option.splits if_splits)
  have opt0: "0 \<le> opt" using opt by auto
  from fi [OF i] len have bound: "nat opt + i + length bb \<le> length body" by simp
  show ?case
  proof (cases "start < 0")
    case True
    with opt0 nxt bound len show ?thesis by simp
  next
    case False
    then have "opt = ?off" using opt len by simp
    with False opt0 nxt bound len show ?thesis by simp
  qed
qed

declare split_loop.simps [simp del]

definition split_parts :: "buffer \<Rightarrow> jsstring \<Rightarrow> buffer list" where
  "split_parts body boundary =
     (let boundaryBuf = Buffer_from (asc ''--'' @ boundary);
          start = indexOf body boundaryBuf 0
      in split_loop body boundary start [])"

subsection \<open>Selecting the file part (lines 52-67)\<close>

text \<open>
  The \<open>for\<close> loop over \<open>parts\<close>, with the variables \<open>fileBuffer\<close> (\<open>None\<close> is
  \<open>null\<close>) and \<open>filename\<close> as the state. \<open>continue\<close> goes on with the rest of the
  parts, \<open>break\<close> returns the state.
\<close>

fun select_file :: "buffer list \<Rightarrow> buffer option \<times> jsstring \<Rightarrow> buffer option \<times> jsstring" where
  "select_file [] (fileBuffer, filename) = (fileBuffer, filename)"
| "select_file (part # parts) (fileBuffer, filename) =
     (let headerEnd = indexOf part (Buffer_from [0x0D, 0x0A, 0x0D, 0x0A]) 0 in
      if headerEnd = -1 then select_file parts (fileBuffer, filename)
      else
        (let header = toString (slice part 0 (Some headerEnd)) in
         case regex_search filename_at header of
           Some fileMatch \<Rightarrow> (Some (slice part (headerEnd + 4) None), fileMatch)
         | None \<Rightarrow> select_file parts (fileBuffer, filename)))"

subsection \<open>Requests and responses\<close>

record request =
  http_method :: string
  content_type :: "jsstring option"
  chunks :: "buffer list"

text \<open>What is handed to \<open>fetch\<close>: the URL and the one field of the form.\<close>

record upload =
  url :: string
  field :: string
  upload_filename :: jsstring
  upload_content :: buffer

record downstream =
  status :: nat
  content_type_header :: "jsstring option"
  received :: buffer

text \<open>
  \<open>Json s e d\<close> is \<open>res.status(s).json({error: e})\<close>, with \<open>detail: String(d)\<close>
  when \<open>d\<close> is an error; \<open>Relay\<close> is the relayed answer of the downstream service.
\<close>

datatype response =
    Json nat string "js_error option"
  | Relay nat "jsstring option" buffer

text \<open>
  The handler returns its response and the calls it made to the downstream service.
  \<open>PROCESSOR_URL\<close> is the environment variable (\<open>None\<close> when unset) and \<open>fetch\<close> the
  downstream service, which answers or throws.
\<close>

definition handler ::
  "string option \<Rightarrow> (upload \<Rightarrow> js_error + downstream) \<Rightarrow> request \<Rightarrow> response \<times> upload list" where
  "handler PROCESSOR_URL fetch req =
     (if http_method req \<noteq> ''POST'' then (Json 405 ''Only POST supported'' None, [])
      else
        (case PROCESSOR_URL of
           None \<Rightarrow> (Json 500 ''PROCESSOR_URL env variable missing'' None, [])
         | Some base \<Rightarrow>
             if base = [] then (Json 500 ''PROCESSOR_URL env variable missing'' None, [])
             else
               (let body = concat (chunks req) in
                case getBoundary (content_type req) of
                  Inl err \<Rightarrow> (Json 500 ''Proxy failed'' (Some err), [])
                | Inr None \<Rightarrow> (Json 400 ''Invalid multipart/form-data'' None, [])
                | Inr (Some boundary) \<Rightarrow>
                    if boundary = [] then (Json 400 ''Invalid multipart/form-data'' None, [])
                    else
                      (case select_file (split_parts body boundary) (None, asc ''file.pdf'') of
                         (None, filename) \<Rightarrow> (Json 400 ''No file found in request'' None, [])
                       | (Some fileBuffer, filename) \<Rightarrow>
                           (let form = \<lparr>url = base @ ''/upload'', field = ''file'',
                                        upload_filename = filename,
                                        upload_content = fileBuffer\<rparr>
                            in case fetch form of
                                 Inl err \<Rightarrow> (Json 500 ''Proxy failed'' (Some err), [form])
                               | Inr resp \<Rightarrow>
                                   (Relay (status resp) (content_type_header resp)
                                      (received resp),
                                    [form]))))))"

section \<open>Notions used in the statements\<close>

definition CRLF :: buffer where
  "CRLF = [CHR 0x0D, CHR 0x0A]"

definition CRLFCRLF :: buffer where
  "CRLFCRLF = CRLF @ CRLF"

definition QUOTE :: buffer where
  "QUOTE = [CHR 0x22]"

text \<open>
  The header block of a part is what precedes its first \<open>\r\n\r\n\<close>, the payload
  what follows it; a part without \<open>\r\n\r\n\<close> has neither. A part declares the
  filename that \<open>/filename="(.+?)"/\<close> captures in its decoded header block.
\<close>

definition header_block :: "buffer \<Rightarrow> buffer option" where
  "header_block part = map_option (\<lambda>h. take h part) (first_index CRLFCRLF part)"

definition payload :: "buffer \<Rightarrow> buffer option" where
  "payload part = map_option (\<lambda>h. drop (h + 4) part) (first_index CRLFCRLF part)"

definition declared_filename :: "buffer \<Rightarrow> jsstring option" where
  "declared_filename part =
     (case header_block part of
        None \<Rightarrow> None
      | Some hdr \<Rightarrow> regex_search filename_at (toString hdr))"

text \<open>
  The part splitter in the words of its contract. The marker occurs at a position when
  it is a prefix of the body from there. The occurrences that are located one after
  the other are the first one and then, each time, the first one that starts at or
  after the end of the one before. A part is cut out between each located occurrence
  and the next located one: from 2 bytes after the end of the first to 2 bytes before
  the start of the second (nothing when that range is empty).
\<close>

definition occurs_at :: "buffer \<Rightarrow> buffer \<Rightarrow> nat \<Rightarrow> bool" where
  "occurs_at marker body i \<longleftrightarrow> prefix marker (drop i body)"

definition occurrences :: "buffer \<Rightarrow> buffer \<Rightarrow> nat list" where
  "occurrences marker body = filter (occurs_at marker body) [0..<length body]"

function consecutive :: "nat \<Rightarrow> nat list \<Rightarrow> nat list" where
  "consecutive len [] = []"
| "consecutive len (p # ps) = p # consecutive len (dropWhile (\<lambda>q. q < p + len) ps)"
  by pat_completeness auto
termination
  by (relation "measure (\<lambda>(len, ps). length ps)")
     (auto simp: length_dropWhile_le less_Suc_eq_le)

definition located :: "buffer \<Rightarrow> buffer \<Rightarrow> nat list" where
  "located marker body = consecutive (length marker) (occurrences marker body)"

definition adjacent :: "'a list \<Rightarrow> ('a \<times> 'a) list" where
  "adjacent xs = zip xs (tl xs)"

definition between :: "buffer \<Rightarrow> nat \<Rightarrow> nat \<Rightarrow> buffer" where
  "between body s e = take (e - s) (drop s body)"

definition spec_parts :: "buffer \<Rightarrow> buffer \<Rightarrow> buffer list" where
  "spec_parts marker body =
     map (\<lambda>(a, b). between body (a + length marker + 2) (b - 2)) (adjacent (located marker body))"

section \<open>Example requests\<close>

text \<open>A POST request with boundary \<open>X\<close> whose body arrives in one chunk.\<close>

definition post :: "buffer \<Rightarrow> request" where
  "post body = \<lparr>http_method = ''POST'',
                 content_type = Some (asc ''multipart/form-data; boundary=X''),
                 chunks = [body]\<rparr>"




text \<open>A file part whose payload is empty.\<close>

definition empty_file_body :: buffer where
  "empty_file_body =
     ''--X'' @ CRLF @ ''filename='' @ QUOTE @ ''a'' @ QUOTE @ CRLFCRLF @ CRLF @ ''--X--''"

text \<open>A form field and no file.\<close>

definition field_body :: buffer where
  "field_body =
     ''--X'' @ CRLF @ ''name='' @ QUOTE @ ''note'' @ QUOTE @ CRLFCRLF @ ''hi'' @ CRLF @ ''--X--''"

text \<open>Three parts: a form field, and two files.\<close>

definition three_part_body :: buffer where
  "three_part_body =
     ''--X'' @ CRLF @ ''name='' @ QUOTE @ ''note'' @ QUOTE @ CRLFCRLF @ ''first'' @ CRLF @
     ''--X'' @ CRLF @ ''filename='' @ QUOTE @ ''b.txt'' @ QUOTE @ CRLFCRLF @ ''second'' @ CRLF @
     ''--X'' @ CRLF @ ''filename='' @ QUOTE @ ''c.txt'' @ QUOTE @ CRLFCRLF @ ''third'' @ CRLF @
     ''--X--''"

text \<open>Two parts, and two markers with nothing between them.\<close>

definition two_part_body :: buffer where
  "two_part_body = ''--X'' @ CRLF @ ''ab'' @ CRLF @ ''--X'' @ CRLF @ ''c'' @ CRLF @ ''--X--''"

definition single_marker_body :: buffer where
  "single_marker_body = ''--X'' @ CRLF @ ''the rest''"

definition touching_body :: buffer where
  "touching_body = ''--X--X'' @ CRLF"

text \<open>The downstream service of the examples answers 201 with a JSON body.\<close>

definition created :: "upload \<Rightarrow> js_error + downstream" where
  "created form = Inr \<lparr>status = 201, content_type_header = Some (asc ''application/json''),
                       received = ''{}''\<rparr>"

section \<open>Properties\<close>

subsection \<open>Searching\<close>

lemma regex_search_first:
  "(\<forall>j<length pre. m (drop j (pre @ rest)) = None) \<Longrightarrow> m rest = Some g
   \<Longrightarrow> regex_search m (pre @ rest) = Some g"
proof (induction pre)
  case Nil
  then show ?case by (cases rest) simp_all
next
  case (Cons c pre)
  from Cons.prems(1) have "m (c # pre @ rest) = None" by fastforce
  moreover from Cons.prems(1) have "\<forall>j<length pre. m (drop j (pre @ rest)) = None"
    by fastforce
  ultimately show ?case using Cons.IH Cons.prems(2) by simp
qed

lemma regex_search_none:
  "(\<forall>j\<le>length s. m (drop j s) = None) \<Longrightarrow> regex_search m s = None"
proof (induction s)
  case Nil
  then show ?case by simp
next
  case (Cons c s)
  from Cons.prems have "m (c # s) = None" by fastforce
  moreover from Cons.prems have "\<forall>j\<le>length s. m (drop j s) = None"
    by fastforce
  ultimately show ?case using Cons.IH by simp
qed

lemma regex_search_Some:
  "regex_search m s = Some g \<Longrightarrow>
   \<exists>j\<le>length s. m (drop j s) = Some g \<and> (\<forall>k<j. m (drop k s) = None)"
proof (induction s)
  case Nil
  then show ?case by simp
next
  case (Cons c s)
  show ?case
  proof (cases "m (c # s)")
    case None
    with Cons obtain j where j: "j \<le> length s" "m (drop j s) = Some g"
      "\<forall>k<j. m (drop k s) = None" by auto
    have "\<forall>k<Suc j. m (drop k (c # s)) = None"
    proof (intro allI impI)
      fix k assume "k < Suc j"
      then show "m (drop k (c # s)) = None" using None j(3) by (cases k) auto
    qed
    with j show ?thesis by (intro exI [of _ "Suc j"]) simp
  next
    case (Some a)
    with Cons.prems show ?thesis by (intro exI [of _ 0]) simp
  qed
qed

lemma boundary_at_no_token: "\<not> prefix (asc ''boundary='') s \<Longrightarrow> boundary_at s = None"
  by (simp add: boundary_at_def)

lemma length_asc [simp]: "length (asc s) = length s"
  by (simp add: asc_def)

lemma boundary_at_token:
  "\<forall>c\<in>set rest. \<not> line_terminator c \<Longrightarrow> boundary_at (asc ''boundary='' @ rest) = Some rest"
  by (simp add: boundary_at_def Let_def takeWhile_eq_all_conv [THEN iffD2])

lemma first_index_None: "first_index nd xs = None \<Longrightarrow> \<not> prefix nd (drop j xs)"
proof (induction xs arbitrary: j)
  case Nil
  then show ?case by (simp split: if_splits)
next
  case (Cons x xs)
  then show ?case by (cases j) (auto split: if_splits)
qed

lemma first_index_Some:
  "first_index nd xs = Some i \<Longrightarrow>
   i + length nd \<le> length xs \<and> prefix nd (drop i xs) \<and> (\<forall>j<i. \<not> prefix nd (drop j xs))"
proof (induction xs arbitrary: i)
  case Nil
  then show ?case by (simp split: if_splits)
next
  case (Cons x xs)
  show ?case
  proof (cases "prefix nd (x # xs)")
    case True
    with Cons.prems show ?thesis by (auto dest: prefix_length_le)
  next
    case False
    with Cons.prems obtain k where k: "first_index nd xs = Some k" "i = Suc k" by auto
    from Cons.IH [OF k(1)] have ih: "k + length nd \<le> length xs" "prefix nd (drop k xs)"
      "\<forall>j<k. \<not> prefix nd (drop j xs)" by auto
    have "\<forall>j<Suc k. \<not> prefix nd (drop j (x # xs))"
    proof (intro allI impI)
      fix j assume "j < Suc k"
      then show "\<not> prefix nd (drop j (x # xs))" using False ih(3) by (cases j) auto
    qed
    with ih k show ?thesis by simp
  qed
qed

lemma first_index_SomeI:
  assumes "prefix nd (drop i xs)" "i + length nd \<le> length xs" "\<forall>j<i. \<not> prefix nd (drop j xs)"
  shows "first_index nd xs = Some i"
proof (cases "first_index nd xs")
  case None
  from first_index_None [OF None] assms(1) show ?thesis by blast
next
  case (Some k)
  from first_index_Some [OF Some] have k: "prefix nd (drop k xs)" "\<forall>j<k. \<not> prefix nd (drop j xs)"
    by simp_all
  with assms(1,3) have "\<not> k < i" "\<not> i < k" by blast+
  with Some show ?thesis by simp
qed

text \<open>
  So \<open>first_index needle hay = Some i\<close> says that the needle occurs in \<open>hay\<close> at
  position \<open>i\<close> and at no position before it, and \<open>first_index needle hay = None\<close>
  that it occurs nowhere.
\<close>

lemma first_index_Some_iff:
  "first_index nd xs = Some i \<longleftrightarrow>
     prefix nd (drop i xs) \<and> i + length nd \<le> length xs \<and> (\<forall>j<i. \<not> prefix nd (drop j xs))"
  using first_index_Some [of nd xs i] first_index_SomeI [of nd i xs] by blast

subsection \<open>Buffers of ASCII text\<close>

lemma of_char_less_256: "(of_char c :: nat) < 256"
  by simp

lemma unat_asc: "map unat (asc s) = map of_char s"
proof -
  have "unat (of_nat (of_char c) :: 16 word) = of_char c" for c
  proof -
    have "(of_char c :: nat) < 65536" using of_char_less_256 [of c] by linarith
    then show ?thesis by (simp add: unat_of_nat)
  qed
  then show ?thesis by (simp add: asc_def)
qed

lemma code_points_no_surrogate: "\<forall>u\<in>set us. u < 0xD800 \<Longrightarrow> code_points us = us"
  by (induction us rule: code_points.induct)
     (auto simp: high_surrogate_def low_surrogate_def)

lemma Buffer_from_asc:
  assumes "\<forall>c\<in>set s. (of_char c :: nat) < 128"
  shows "Buffer_from (asc s) = s"
proof -
  from assms have "code_points (map of_char s) = map of_char s"
    by (intro code_points_no_surrogate) auto
  moreover from assms have "concat (map utf8_bytes (map of_char s)) = s"
    by (induction s) (simp_all add: utf8_bytes_def)
  ultimately show ?thesis by (simp add: Buffer_from_def unat_asc)
qed

lemma utf8_decode_ascii:
  "\<forall>b\<in>set bs. b < 128 \<Longrightarrow> utf8_decode utf8_init bs = bs"
  by (induction bs) (simp_all add: utf8_init_def)

lemma toString_ascii:
  assumes "\<forall>c\<in>set bs. (of_char c :: nat) < 128"
  shows "toString bs = asc bs"
proof -
  from assms have "utf8_decode utf8_init (map of_char bs) = map of_char bs"
    by (intro utf8_decode_ascii) auto
  moreover have "concat (map utf16_units (map of_char bs)) = asc bs"
    using of_char_less_256 by (induction bs) (simp_all add: utf16_units_def asc_def order_less_trans [OF of_char_less_256])
  ultimately show ?thesis by (simp add: toString_def)
qed

subsection \<open>indexOf, slice and the file selector\<close>

lemma Buffer_from_sep: "Buffer_from [0x0D, 0x0A, 0x0D, 0x0A] = CRLFCRLF"
  by (simp add: Buffer_from_def CRLFCRLF_def CRLF_def utf8_bytes_def
      high_surrogate_def low_surrogate_def char_of_def bit_Suc_0_iff)

lemma indexOf_0:
  assumes "needle \<noteq> []"
  shows "indexOf hay needle 0 =
           (case first_index needle hay of None \<Rightarrow> -1 | Some i \<Rightarrow> int i)"
proof (cases "first_index needle hay")
  case None
  then show ?thesis using assms by (simp add: indexOf_def Let_def)
next
  case (Some i)
  from first_index_Some [OF Some] have "i + length needle \<le> length hay" by simp
  with Some assms show ?thesis by (auto simp: indexOf_def Let_def)
qed

lemma indexOf_nonneg:
  assumes "needle \<noteq> []" "0 \<le> off"
  shows "indexOf hay needle off =
           (case first_index needle (drop (nat off) hay) of
              None \<Rightarrow> -1 | Some i \<Rightarrow> off + int i)"
proof (cases "first_index needle (drop (nat off) hay)")
  case None
  then show ?thesis using assms by (simp add: indexOf_def Let_def)
next
  case (Some i)
  from first_index_Some [OF Some] have "i + length needle \<le> length hay - nat off" by simp
  moreover from assms have "0 < length needle" by simp
  ultimately have "off + int (length needle) \<le> int (length hay)" using assms(2) by linarith
  with Some assms show ?thesis by (auto simp: indexOf_def Let_def)
qed

lemma slice_prefix: "0 \<le> e \<Longrightarrow> slice buf 0 (Some e) = take (nat e) buf"
  by (auto simp: slice_def adjustOffset_def Let_def)

lemma slice_suffix: "0 \<le> s \<Longrightarrow> slice buf s None = drop (nat s) buf"
  by (auto simp: slice_def adjustOffset_def Let_def)

lemma slice_between:
  "0 \<le> s \<Longrightarrow> 0 \<le> e \<Longrightarrow> slice buf s (Some e) = take (nat e - nat s) (drop (nat s) buf)"
  by (auto simp: slice_def adjustOffset_def Let_def nat_diff_distrib)

lemma select_file_skip:
  "declared_filename part = None \<Longrightarrow> select_file (part # parts) st = select_file parts st"
  by (cases st; cases "first_index CRLFCRLF part")
     (simp_all add: declared_filename_def header_block_def Buffer_from_sep indexOf_0
        CRLFCRLF_def CRLF_def slice_prefix)

lemma select_file_hit:
  "declared_filename part = Some f \<Longrightarrow> select_file (part # parts) st = (payload part, f)"
  by (cases st; cases "first_index CRLFCRLF part")
     (simp_all add: declared_filename_def header_block_def payload_def Buffer_from_sep indexOf_0
        CRLFCRLF_def CRLF_def slice_prefix slice_suffix nat_add_distrib)

lemma declared_payload: "declared_filename part = Some f \<Longrightarrow> \<exists>b. payload part = Some b"
  by (cases "first_index CRLFCRLF part") (simp_all add: declared_filename_def header_block_def payload_def)


lemma first_index_None_iff: "first_index nd xs = None \<longleftrightarrow> \<not> (\<exists>a b. xs = a @ nd @ b)"
proof
  assume none: "first_index nd xs = None"
  show "\<not> (\<exists>a b. xs = a @ nd @ b)"
  proof
    assume "\<exists>a b. xs = a @ nd @ b"
    then obtain a b where "xs = a @ nd @ b" by blast
    then have "prefix nd (drop (length a) xs)" by simp
    with first_index_None [OF none] show False by blast
  qed
next
  assume no: "\<not> (\<exists>a b. xs = a @ nd @ b)"
  show "first_index nd xs = None"
  proof (rule ccontr)
    assume "first_index nd xs \<noteq> None"
    then obtain i where "first_index nd xs = Some i" by auto
    from first_index_Some [OF this] have "prefix nd (drop i xs)" by simp
    then obtain b where "drop i xs = nd @ b" by (auto simp: prefix_def)
    then have "xs = take i xs @ nd @ b" by (metis append_take_drop_id)
    with no show False by blast
  qed
qed

lemma select_file_append_skip:
  "declared_filename p = None \<Longrightarrow> select_file (ps @ p # qs) st = select_file (ps @ qs) st"
proof (induction ps)
  case Nil
  then show ?case by (simp add: select_file_skip)
next
  case (Cons q ps)
  show ?case
  proof (cases "declared_filename q")
    case None
    then show ?thesis using Cons by (simp add: select_file_skip)
  next
    case (Some f)
    then show ?thesis by (simp add: select_file_hit)
  qed
qed

lemma select_file_first:
  "\<forall>q\<in>set ps. declared_filename q = None \<Longrightarrow> declared_filename p = Some f
   \<Longrightarrow> select_file (ps @ p # qs) st = (payload p, f)"
  by (induction ps) (simp_all add: select_file_skip select_file_hit)

lemma select_file_none:
  "\<forall>q\<in>set ps. declared_filename q = None \<Longrightarrow> select_file ps st = st"
  by (induction ps) (simp_all add: select_file_skip, cases st, simp)

subsection \<open>The loop of the part splitter\<close>

lemma code_points_dash: "code_points (45 # us) = 45 # code_points us"
  by (cases us) (simp_all add: high_surrogate_def low_surrogate_def)

lemma marker_dashes: "Buffer_from (asc ''--'' @ B) = ''--'' @ Buffer_from B"
  by (simp add: Buffer_from_def asc_def code_points_dash utf8_bytes_def char_of_def bit_Suc_0_iff
      high_surrogate_def low_surrogate_def)

lemma occ_filter_None:
  assumes "first_index marker (drop k body) = None"
  shows "filter (occurs_at marker body) [k..<length body] = []"
proof -
  have "\<not> occurs_at marker body i" if "k \<le> i" for i
  proof -
    from first_index_None [OF assms, of "i - k"] that show ?thesis
      by (simp add: occurs_at_def)
  qed
  then show ?thesis by (simp add: filter_empty_conv)
qed

lemma occ_filter_Some:
  assumes "first_index marker (drop k body) = Some i" "marker \<noteq> []"
  shows "filter (occurs_at marker body) [k..<length body] =
           (k + i) # filter (occurs_at marker body) [Suc (k + i)..<length body]"
proof -
  from first_index_Some [OF assms(1)]
  have b: "i + length marker \<le> length body - k" and p: "prefix marker (drop (k + i) body)"
    and n: "\<forall>j<i. \<not> prefix marker (drop (k + j) body)" by (simp_all add: add.commute)
  from b assms(2) have lt: "k + i < length body" by (cases marker) auto
  then have split: "[k..<length body] = [k..<k + i] @ (k + i) # [Suc (k + i)..<length body]"
    by (metis le_add1 upt_add_eq_append upt_conv_Cons less_imp_le_nat le_add_diff_inverse)
  have "\<not> occurs_at marker body j" if "j \<in> set [k..<k + i]" for j
  proof -
    from that have "j - k < i" "j = k + (j - k)" by auto
    with n show ?thesis by (metis occurs_at_def)
  qed
  then have "filter (occurs_at marker body) [k..<k + i] = []" by (simp add: filter_empty_conv)
  with p show ?thesis by (simp add: split occurs_at_def)
qed

lemma dropWhile_filter_upt:
  assumes "m \<le> k"
  shows "dropWhile (\<lambda>q. q < k) (filter P [m..<n]) = filter P [k..<n]"
proof (cases "k < n")
  case True
  with assms have "[m..<n] = [m..<k] @ [k..<n]"
    by (metis le_add_diff_inverse less_imp_le_nat upt_add_eq_append)
  moreover have "dropWhile (\<lambda>q. q < k) (filter P [m..<k] @ filter P [k..<n]) =
      dropWhile (\<lambda>q. q < k) (filter P [k..<n])"
    by (rule dropWhile_append2) simp
  moreover have "dropWhile (\<lambda>q. q < k) (filter P [k..<n]) = filter P [k..<n]"
  proof (cases "filter P [k..<n]")
    case Nil
    then show ?thesis by simp
  next
    case (Cons a as)
    then have "a \<in> set (filter P [k..<n])" by simp
    then have "k \<le> a" by simp
    with Cons show ?thesis by simp
  qed
  ultimately show ?thesis by simp
next
  case False
  then show ?thesis by (auto simp: dropWhile_eq_Nil_conv)
qed


lemma marker_length: "2 \<le> length (Buffer_from (asc ''--'' @ B))"
  by (simp add: marker_dashes)

lemma split_loop_located:
  assumes m: "marker = Buffer_from (asc ''--'' @ B)"
  shows "split_loop body B (int p) acc =
     acc @ map (\<lambda>(a, b). slice body (int a + int (length marker) + 2) (Some (int b - 2)))
            (adjacent (consecutive (length marker)
               (p # filter (occurs_at marker body) [Suc p..<length body])))"
proof (induction "length body - p" arbitrary: p acc rule: less_induct)
  case less
  let ?len = "length marker"
  let ?P = "occurs_at marker body"
  let ?n = "length body"
  from m have len2: "2 \<le> ?len" by (simp add: marker_length)
  then have ne: "marker \<noteq> []" by auto
  have nxt: "indexOf body marker (int p + int ?len) =
      (case first_index marker (drop (p + ?len) body) of
         None \<Rightarrow> -1 | Some i \<Rightarrow> int (p + ?len + i))"
    using indexOf_nonneg [OF ne, of "int p + int ?len" body]
    by (simp add: nat_add_distrib split: option.split)
  have dw: "dropWhile (\<lambda>q. q < p + ?len) (filter ?P [Suc p..<?n]) = filter ?P [p + ?len..<?n]"
    by (rule dropWhile_filter_upt) (use len2 in simp)
  show ?case
  proof (cases "first_index marker (drop (p + ?len) body)")
    case None
    have "split_loop body B (int p) acc = acc"
      by (subst split_loop.simps) (simp add: m [symmetric] nxt None Let_def)
    moreover have "filter ?P [p + ?len..<?n] = []"
      by (rule occ_filter_None [OF None])
    ultimately show ?thesis by (simp add: dw adjacent_def)
  next
    case (Some i)
    let ?q = "p + ?len + i"
    have f: "filter ?P [p + ?len..<?n] = ?q # filter ?P [Suc ?q..<?n]"
      by (rule occ_filter_Some [OF Some ne])
    from first_index_Some [OF Some] have "i + ?len \<le> ?n - (p + ?len)" by simp
    with len2 have "?q < ?n" by linarith
    with len2 have dec: "?n - ?q < ?n - p" by simp
    define rest where
      "rest = adjacent (consecutive ?len (?q # filter ?P [Suc ?q..<?n]))"
    define part where
      "part = slice body (int p + int ?len + 2) (Some (int ?q - 2))"
    have step: "split_loop body B (int p) acc = split_loop body B (int ?q) (acc @ [part])"
      unfolding part_def
      by (subst split_loop.simps) (simp add: m [symmetric] nxt Some Let_def)
    have ih: "split_loop body B (int ?q) (acc @ [part]) =
        (acc @ [part]) @
        map (\<lambda>(a, b). slice body (int a + int ?len + 2) (Some (int b - 2))) rest"
      unfolding rest_def by (rule less.hyps [OF dec])
    have "consecutive ?len (p # filter ?P [Suc p..<?n]) =
        p # consecutive ?len (?q # filter ?P [Suc ?q..<?n])"
      by (subst consecutive.simps(2)) (simp only: dw f)
    then have adj: "adjacent (consecutive ?len (p # filter ?P [Suc p..<?n])) = (p, ?q) # rest"
      by (simp add: adjacent_def rest_def)
    show ?thesis
      by (simp only: step ih adj) (simp add: part_def)
  qed
qed

lemma split_parts_located:
  assumes m: "marker = Buffer_from (asc ''--'' @ B)"
  shows "split_parts body B =
     map (\<lambda>(a, b). slice body (int a + int (length marker) + 2) (Some (int b - 2)))
       (adjacent (located marker body))"
proof -
  from m have ne: "marker \<noteq> []" using marker_length [of B] by auto
  show ?thesis
  proof (cases "first_index marker body")
    case None
    then have "indexOf body marker 0 = -1" by (simp add: indexOf_0 [OF ne])
    moreover have "split_loop body B (- 1) [] = []"
      by (subst split_loop.simps) simp
    ultimately have "split_parts body B = []"
      by (simp add: split_parts_def m [symmetric] Let_def)
    moreover from occ_filter_None [of marker 0 body] None
    have "occurrences marker body = []" by (simp add: occurrences_def)
    ultimately show ?thesis by (simp add: located_def adjacent_def)
  next
    case (Some i)
    then have "indexOf body marker 0 = int i" by (simp add: indexOf_0 [OF ne])
    then have "split_parts body B = split_loop body B (int i) []"
      by (simp add: split_parts_def m [symmetric] Let_def)
    moreover from occ_filter_Some [of marker 0 body i] Some ne
    have "occurrences marker body = i # filter (occurs_at marker body) [Suc i..<length body]"
      by (simp add: occurrences_def)
    ultimately show ?thesis by (simp add: located_def split_loop_located [OF m])
  qed
qed

subsection \<open>The boundary of the Content-Type header\<close>

text \<open>
  Claim C4. For a Content-Type header value (a header field value holds no line
  terminator), \<open>getBoundary\<close> returns exactly what follows the first occurrence of
  \<open>boundary=\<close>, up to the end of the value, unchanged; and for a value in which
  \<open>boundary=\<close> does not occur it returns \<open>null\<close>.
\<close>

theorem getBoundary_spec:
  assumes "\<forall>c\<in>set contentType. \<not> line_terminator c"
  shows "(\<forall>pre rest. contentType = pre @ asc ''boundary='' @ rest \<and>
            (\<forall>j<length pre. \<not> prefix (asc ''boundary='') (drop j contentType))
            \<longrightarrow> getBoundary (Some contentType) = Inr (Some rest)) \<and>
         ((\<forall>j. \<not> prefix (asc ''boundary='') (drop j contentType))
            \<longrightarrow> getBoundary (Some contentType) = Inr None)"
proof (intro conjI allI impI)
  fix pre rest
  assume h: "contentType = pre @ asc ''boundary='' @ rest \<and>
    (\<forall>j<length pre. \<not> prefix (asc ''boundary='') (drop j contentType))"
  then have "\<forall>c\<in>set rest. \<not> line_terminator c" using assms by auto
  then have "boundary_at (asc ''boundary='' @ rest) = Some rest" by (rule boundary_at_token)
  moreover from h have "\<forall>j<length pre. boundary_at (drop j (pre @ asc ''boundary='' @ rest)) = None"
    by (auto intro: boundary_at_no_token)
  ultimately have "regex_search boundary_at (pre @ asc ''boundary='' @ rest) = Some rest"
    by (rule regex_search_first [rotated])
  with h show "getBoundary (Some contentType) = Inr (Some rest)" by simp
next
  assume "\<forall>j. \<not> prefix (asc ''boundary='') (drop j contentType)"
  then have "\<forall>j\<le>length contentType. boundary_at (drop j contentType) = None"
    by (auto intro: boundary_at_no_token)
  then show "getBoundary (Some contentType) = Inr None"
    by (simp add: regex_search_none)
qed

theorem getBoundary_spec_witness:
  "list_all (\<lambda>c. \<not> line_terminator c) (asc ''a; boundary=XYZ123'') \<and>
   getBoundary (Some (asc ''a; boundary=XYZ123'')) = Inr (Some (asc ''XYZ123'')) \<and>
   list_all (\<lambda>c. \<not> line_terminator c) (asc ''text/plain'') \<and>
   getBoundary (Some (asc ''text/plain'')) = Inr None"
proof -
  have lt1: "\<forall>c\<in>set (asc ''a; boundary=XYZ123''). \<not> line_terminator c"
    by (simp add: asc_def line_terminator_def)
  have lt2: "\<forall>c\<in>set (asc ''text/plain''). \<not> line_terminator c"
    by (simp add: asc_def line_terminator_def)
  have eq: "asc ''a; boundary=XYZ123'' = asc ''a; '' @ asc ''boundary='' @ asc ''XYZ123''"
    by (simp add: asc_def)
  have "first_index (asc ''boundary='') (asc ''a; boundary=XYZ123'') = Some 3"
    by (simp add: asc_def)
  from first_index_Some [OF this]
  have first: "\<forall>j<length (asc ''a; ''). \<not> prefix (asc ''boundary='') (drop j (asc ''a; boundary=XYZ123''))"
    by simp
  have "first_index (asc ''boundary='') (asc ''text/plain'') = None"
    by (simp add: asc_def)
  then have none: "\<forall>j. \<not> prefix (asc ''boundary='') (drop j (asc ''text/plain''))"
    by (blast dest: first_index_None)
  from getBoundary_spec [OF lt1] eq first
  have "getBoundary (Some (asc ''a; boundary=XYZ123'')) = Inr (Some (asc ''XYZ123''))"
    by blast
  moreover from getBoundary_spec [OF lt2] none
  have "getBoundary (Some (asc ''text/plain'')) = Inr None"
    by blast
  ultimately show ?thesis using lt1 lt2 by (simp add: list_all_iff)
qed

subsection \<open>A request without a Content-Type header\<close>

text \<open>
  With a Content-Type header that yields no boundary (or an empty one), the guard of
  the handler answers with status 400.
\<close>

lemma handler_no_boundary:
  assumes "http_method req = ''POST''" and "base \<noteq> []"
    and "getBoundary (content_type req) = Inr None \<or>
         getBoundary (content_type req) = Inr (Some [])"
  shows "handler (Some base) fetch req = (Json 400 ''Invalid multipart/form-data'' None, [])"
  using assms by (auto simp: handler_def)

text \<open>
  Claim C5. A POST request without any Content-Type header, with \<open>PROCESSOR_URL\<close> set:
  \<open>getBoundary\<close> is called on \<open>undefined\<close> and throws, the \<open>catch\<close> answers
  with status 500 and \<open>Proxy failed\<close>, not with status 400 and
  \<open>Invalid multipart/form-data\<close>.
\<close>

theorem handler_missing_content_type:
  "handler (Some ''http://processor'') fetch \<lparr>http_method = ''POST'', content_type = None, chunks = cs\<rparr>
     = (Json 500 ''Proxy failed'' (Some TypeError), [])"
  by (simp add: handler_def)

subsection \<open>The handler and the selected file\<close>

declare select_file.simps(2) [simp del]

lemma select_file_cases:
  "select_file parts (fb0, d) = (fb, f) \<Longrightarrow>
     (fb = fb0 \<and> f = d \<and> (\<forall>p\<in>set parts. declared_filename p = None)) \<or>
     (\<exists>p\<in>set parts. declared_filename p = Some f \<and> payload p = fb \<and> fb \<noteq> None)"
proof (induction parts)
  case Nil
  then show ?case by simp
next
  case (Cons q parts)
  show ?case
  proof (cases "declared_filename q")
    case None
    with Cons show ?thesis by (auto simp: select_file_skip)
  next
    case (Some g)
    with Cons.prems have "fb = payload q" "f = g" by (simp_all add: select_file_hit)
    with Some declared_payload [OF Some] show ?thesis by auto
  qed
qed

lemma select_file_default_irrelevant:
  "select_file parts (None, d) = (Some buf, f) \<Longrightarrow> select_file parts (None, d') = (Some buf, f)"
proof (induction parts)
  case Nil
  then show ?case by simp
next
  case (Cons q parts)
  then show ?case
    by (cases "declared_filename q") (simp_all add: select_file_skip select_file_hit)
qed

lemma handler_calls:
  assumes "u \<in> set (snd (handler env fetch req))"
  shows "\<exists>boundary.
           getBoundary (content_type req) = Inr (Some boundary) \<and>
           select_file (split_parts (concat (chunks req)) boundary) (None, asc ''file.pdf'')
             = (Some (upload_content u), upload_filename u)"
  using assms
  by (auto simp: handler_def Let_def split: if_splits option.splits sum.splits prod.splits)

lemma handler_forward:
  assumes "http_method req = ''POST''" "base \<noteq> []"
    and "getBoundary (content_type req) = Inr (Some boundary)" "boundary \<noteq> []"
    and "select_file (split_parts (concat (chunks req)) boundary) (None, asc ''file.pdf'')
           = (Some buf, f)"
  shows "handler (Some base) fetch req =
     (let form = \<lparr>url = base @ ''/upload'', field = ''file'', upload_filename = f,
                  upload_content = buf\<rparr>
      in case fetch form of
           Inl err \<Rightarrow> (Json 500 ''Proxy failed'' (Some err), [form])
         | Inr resp \<Rightarrow> (Relay (status resp) (content_type_header resp) (received resp), [form]))"
  using assms by (simp add: handler_def Let_def)

lemma handler_no_file:
  assumes "http_method req = ''POST''" "base \<noteq> []"
    and "getBoundary (content_type req) = Inr (Some boundary)" "boundary \<noteq> []"
    and "select_file (split_parts (concat (chunks req)) boundary) (None, asc ''file.pdf'')
           = (None, f)"
  shows "handler (Some base) fetch req = (Json 400 ''No file found in request'' None, [])"
  using assms by (simp add: handler_def Let_def)

lemma no_marker_no_parts:
  assumes "\<not> (\<exists>a b. body = a @ (''--'' @ Buffer_from B) @ b)"
  shows "split_parts body B = []"
proof -
  from assms have "first_index (''--'' @ Buffer_from B) body = None"
    by (rule first_index_None_iff [THEN iffD2])
  then have "indexOf body (''--'' @ Buffer_from B) 0 = -1"
    by (simp add: indexOf_0)
  moreover have "split_loop body B (- 1) [] = []"
    by (subst split_loop.simps) simp
  ultimately show ?thesis by (simp add: split_parts_def marker_dashes Let_def)
qed

subsection \<open>Parts without a header separator\<close>

text \<open>
  Claim C7. A part that contains no \<open>\r\n\r\n\<close> is skipped: wherever it stands in the
  sequence of parts, the selector ends in the state it reaches without that part, so
  the part is never the selected file and the parts after it are still scanned. The
  loop has no failing branch.
\<close>

theorem part_without_separator_skipped:
  assumes "\<not> (\<exists>a b. p = a @ CRLFCRLF @ b)"
  shows "select_file (ps @ p # qs) st = select_file (ps @ qs) st"
proof -
  from assms have "first_index CRLFCRLF p = None"
    by (rule first_index_None_iff [THEN iffD2])
  then have "declared_filename p = None" by (simp add: declared_filename_def header_block_def)
  then show ?thesis by (rule select_file_append_skip)
qed

theorem part_without_separator_skipped_witness:
  "select_file [''no separator here'', ''filename='' @ QUOTE @ ''a.txt'' @ QUOTE @ CRLFCRLF @ ''DATA'']
     (None, asc ''file.pdf'') = (Some ''DATA'', asc ''a.txt'')"
proof -
  have "first_index CRLFCRLF ''no separator here'' = None"
    by (simp add: CRLFCRLF_def CRLF_def)
  then have "\<not> (\<exists>a b. ''no separator here'' = a @ CRLFCRLF @ b)"
    by (rule first_index_None_iff [THEN iffD1])
  from part_without_separator_skipped [OF this, of "[]"]
  have "select_file [''no separator here'', ''filename='' @ QUOTE @ ''a.txt'' @ QUOTE @ CRLFCRLF @ ''DATA'']
      (None, asc ''file.pdf'')
    = select_file [''filename='' @ QUOTE @ ''a.txt'' @ QUOTE @ CRLFCRLF @ ''DATA''] (None, asc ''file.pdf'')"
    by simp
  moreover have "declared_filename (''filename='' @ QUOTE @ ''a.txt'' @ QUOTE @ CRLFCRLF @ ''DATA'')
      = Some (asc ''a.txt'')"
    by (simp add: declared_filename_def header_block_def CRLFCRLF_def CRLF_def QUOTE_def
        toString_ascii asc_def filename_at_def line_terminator_def)
  moreover have "payload (''filename='' @ QUOTE @ ''a.txt'' @ QUOTE @ CRLFCRLF @ ''DATA'') = Some ''DATA''"
    by (simp add: payload_def CRLFCRLF_def CRLF_def QUOTE_def)
  ultimately show ?thesis by (simp add: select_file_hit)
qed

subsection \<open>The first part that declares a filename\<close>

text \<open>
  Claim C3. The selector returns the filename and the payload of the first part whose
  header block matches \<open>filename="..."\<close>, whatever follows that part; with three
  parts of which only the second and the third declare a filename, it returns those of
  the second.
\<close>

theorem first_declared_filename_wins:
  "(\<forall>ps p qs f. (\<forall>q\<in>set ps. declared_filename q = None) \<and> declared_filename p = Some f
      \<longrightarrow> select_file (ps @ p # qs) st = (payload p, f) \<and> payload p \<noteq> None) \<and>
   (\<forall>p1 p2 p3 f2 f3. declared_filename p1 = None \<and> declared_filename p2 = Some f2 \<and>
        declared_filename p3 = Some f3
      \<longrightarrow> select_file [p1, p2, p3] st = (payload p2, f2))"
proof (intro conjI allI impI)
  fix ps p qs f
  assume h: "(\<forall>q\<in>set ps. declared_filename q = None) \<and> declared_filename p = Some f"
  then show "select_file (ps @ p # qs) st = (payload p, f)" by (simp add: select_file_first)
  from h declared_payload show "payload p \<noteq> None" by fastforce
next
  fix p1 p2 p3 f2 f3
  assume "declared_filename p1 = None \<and> declared_filename p2 = Some f2 \<and>
        declared_filename p3 = Some f3"
  then show "select_file [p1, p2, p3] st = (payload p2, f2)"
    by (simp add: select_file_skip select_file_hit)
qed

lemma located_three: "located ''--X'' three_part_body = [0, 27, 60, 92]"
  by code_simp

lemma split_three:
  "split_parts three_part_body (asc ''X'') =
     [''name='' @ QUOTE @ ''note'' @ QUOTE @ CRLFCRLF @ ''first'',
      ''filename='' @ QUOTE @ ''b.txt'' @ QUOTE @ CRLFCRLF @ ''second'',
      ''filename='' @ QUOTE @ ''c.txt'' @ QUOTE @ CRLFCRLF @ ''third'']"
proof -
  have m: "''--X'' = Buffer_from (asc ''--'' @ asc ''X'')"
    by (simp add: marker_dashes Buffer_from_asc)
  have "split_parts three_part_body (asc ''X'') =
      map (\<lambda>(a, b). slice three_part_body (int a + int (length ''--X'') + 2) (Some (int b - 2)))
        (adjacent (located ''--X'' three_part_body))"
    by (rule split_parts_located [OF m])
  then show ?thesis
    unfolding located_three
    by (simp add: adjacent_def slice_def adjustOffset_def three_part_body_def
        CRLF_def CRLFCRLF_def QUOTE_def)
qed

theorem first_declared_filename_wins_witness:
  "select_file (split_parts three_part_body (asc ''X'')) (None, asc ''file.pdf'')
     = (Some ''second'', asc ''b.txt'')"
proof -
  have 1: "declared_filename (''name='' @ QUOTE @ ''note'' @ QUOTE @ CRLFCRLF @ ''first'') = None"
    by (simp add: declared_filename_def header_block_def CRLFCRLF_def CRLF_def QUOTE_def
        toString_ascii asc_def filename_at_def line_terminator_def)
  have 2: "declared_filename (''filename='' @ QUOTE @ ''b.txt'' @ QUOTE @ CRLFCRLF @ ''second'')
      = Some (asc ''b.txt'')"
    by (simp add: declared_filename_def header_block_def CRLFCRLF_def CRLF_def QUOTE_def
        toString_ascii asc_def filename_at_def line_terminator_def)
  have 3: "declared_filename (''filename='' @ QUOTE @ ''c.txt'' @ QUOTE @ CRLFCRLF @ ''third'')
      = Some (asc ''c.txt'')"
    by (simp add: declared_filename_def header_block_def CRLFCRLF_def CRLF_def QUOTE_def
        toString_ascii asc_def filename_at_def line_terminator_def)
  have 4: "payload (''filename='' @ QUOTE @ ''b.txt'' @ QUOTE @ CRLFCRLF @ ''second'') = Some ''second''"
    by (simp add: payload_def CRLFCRLF_def CRLF_def QUOTE_def)
  from first_declared_filename_wins [of "(None, asc ''file.pdf'')"] 1 2 3
  have "select_file
     [''name='' @ QUOTE @ ''note'' @ QUOTE @ CRLFCRLF @ ''first'',
      ''filename='' @ QUOTE @ ''b.txt'' @ QUOTE @ CRLFCRLF @ ''second'',
      ''filename='' @ QUOTE @ ''c.txt'' @ QUOTE @ CRLFCRLF @ ''third'']
     (None, asc ''file.pdf'')
     = (payload (''filename='' @ QUOTE @ ''b.txt'' @ QUOTE @ CRLFCRLF @ ''second''), asc ''b.txt'')"
    by blast
  then show ?thesis unfolding split_three 4 .
qed

subsection \<open>The examples\<close>

lemma getBoundary_X:
  "getBoundary (Some (asc ''multipart/form-data; boundary=X'')) = Inr (Some (asc ''X''))"
  by (simp add: asc_def boundary_at_def line_terminator_def)

lemma marker_X: "''--X'' = Buffer_from (asc ''--'' @ asc ''X'')"
  by (simp add: marker_dashes Buffer_from_asc)

lemma post_method: "http_method (post body) = ''POST''"
  by (simp add: post_def)

lemma post_boundary: "getBoundary (content_type (post body)) = Inr (Some (asc ''X''))"
  by (simp add: post_def getBoundary_X del: getBoundary.simps)

lemma post_body: "concat (chunks (post body)) = body"
  by (simp add: post_def)

lemma asc_X: "asc ''X'' \<noteq> []"
  by (simp add: asc_def)

lemma located_empty_file: "located ''--X'' empty_file_body = [0, 23]"
  by code_simp

lemma split_empty_file:
  "split_parts empty_file_body (asc ''X'') = [''filename='' @ QUOTE @ ''a'' @ QUOTE @ CRLFCRLF]"
proof -
  have "split_parts empty_file_body (asc ''X'') =
      map (\<lambda>(a, b). slice empty_file_body (int a + int (length ''--X'') + 2) (Some (int b - 2)))
        (adjacent (located ''--X'' empty_file_body))"
    by (rule split_parts_located [OF marker_X])
  then show ?thesis
    unfolding located_empty_file
    by (simp add: adjacent_def slice_def adjustOffset_def empty_file_body_def
        CRLF_def CRLFCRLF_def QUOTE_def)
qed


lemma located_field: "located ''--X'' field_body = [0, 24]"
  by code_simp

lemma split_field:
  "split_parts field_body (asc ''X'') = [''name='' @ QUOTE @ ''note'' @ QUOTE @ CRLFCRLF @ ''hi'']"
proof -
  have "split_parts field_body (asc ''X'') =
      map (\<lambda>(a, b). slice field_body (int a + int (length ''--X'') + 2) (Some (int b - 2)))
        (adjacent (located ''--X'' field_body))"
    by (rule split_parts_located [OF marker_X])
  then show ?thesis
    unfolding located_field
    by (simp add: adjacent_def slice_def adjustOffset_def field_body_def
        CRLF_def CRLFCRLF_def QUOTE_def)
qed

lemma declared_empty_file:
  "declared_filename (''filename='' @ QUOTE @ ''a'' @ QUOTE @ CRLFCRLF) = Some (asc ''a'')"
  by (simp add: declared_filename_def header_block_def CRLFCRLF_def CRLF_def QUOTE_def
      toString_ascii asc_def filename_at_def line_terminator_def)

lemma payload_empty_file:
  "payload (''filename='' @ QUOTE @ ''a'' @ QUOTE @ CRLFCRLF) = Some []"
  by (simp add: payload_def CRLFCRLF_def CRLF_def QUOTE_def)

lemma declared_field:
  "declared_filename (''name='' @ QUOTE @ ''note'' @ QUOTE @ CRLFCRLF @ ''hi'') = None"
  by (simp add: declared_filename_def header_block_def CRLFCRLF_def CRLF_def QUOTE_def
      toString_ascii asc_def filename_at_def line_terminator_def)

subsection \<open>An empty payload\<close>

lemma select_file_declared:
  assumes "p \<in> set parts" and "declared_filename p = Some f"
  shows "\<exists>buf g. select_file parts (None, d) = (Some buf, g)"
proof -
  obtain fb g where sel: "select_file parts (None, d) = (fb, g)" by (cases "select_file parts (None, d)")
  from select_file_cases [OF sel] assms have "fb \<noteq> None" by auto
  with sel show ?thesis by auto
qed

text \<open>
  Claim C10. When a part of the request declares a filename and ends with its
  \<open>\r\n\r\n\<close>, the handler makes a downstream call and does not answer
  \<open>No file found in request\<close>. When that part is the first one that declares a
  filename, the selected buffer is the empty buffer (and not \<open>null\<close>), and the
  handler forwards a file of zero bytes under the declared name.
\<close>

theorem empty_payload_forwarded:
  assumes "http_method req = ''POST''" and "base \<noteq> []"
    and "getBoundary (content_type req) = Inr (Some boundary)" and "boundary \<noteq> []"
    and "p \<in> set (split_parts (concat (chunks req)) boundary)"
    and "declared_filename p = Some f" and "payload p = Some []"
  shows "(\<exists>form. snd (handler (Some base) fetch req) = [form]) \<and>
         fst (handler (Some base) fetch req) \<noteq> Json 400 ''No file found in request'' None \<and>
         (\<forall>ps qs. split_parts (concat (chunks req)) boundary = ps @ p # qs \<and>
            (\<forall>q\<in>set ps. declared_filename q = None)
            \<longrightarrow> select_file (ps @ p # qs) (None, asc ''file.pdf'') = (Some [], f) \<and>
                snd (handler (Some base) fetch req) =
                  [\<lparr>url = base @ ''/upload'', field = ''file'', upload_filename = f,
                    upload_content = []\<rparr>])"
proof (intro conjI allI impI)
  from select_file_declared [OF assms(5,6)] obtain buf g where
    sel: "select_file (split_parts (concat (chunks req)) boundary) (None, asc ''file.pdf'')
      = (Some buf, g)" by blast
  note h = handler_forward [OF assms(1-4) sel, of fetch]
  from h show "\<exists>form. snd (handler (Some base) fetch req) = [form]"
    by (simp add: Let_def split: sum.splits)
  from h show "fst (handler (Some base) fetch req) \<noteq> Json 400 ''No file found in request'' None"
    by (simp add: Let_def split: sum.splits)
next
  fix ps qs
  assume first: "split_parts (concat (chunks req)) boundary = ps @ p # qs \<and>
            (\<forall>q\<in>set ps. declared_filename q = None)"
  with assms(6,7)
  show sel: "select_file (ps @ p # qs) (None, asc ''file.pdf'') = (Some [], f)"
    by (simp add: select_file_first)
  with first
  have "select_file (split_parts (concat (chunks req)) boundary) (None, asc ''file.pdf'')
      = (Some [], f)" by simp
  from handler_forward [OF assms(1-4) this, of fetch]
  show "snd (handler (Some base) fetch req) =
      [\<lparr>url = base @ ''/upload'', field = ''file'', upload_filename = f, upload_content = []\<rparr>]"
    by (simp add: Let_def split: sum.splits)
qed

theorem empty_payload_forwarded_witness:
  "handler (Some ''http://processor'') created (post empty_file_body) =
     (Relay 201 (Some (asc ''application/json'')) ''{}'',
      [\<lparr>url = ''http://processor/upload'', field = ''file'', upload_filename = asc ''a'',
        upload_content = []\<rparr>])"
proof -
  have base: "''http://processor'' \<noteq> []" by simp
  have parts: "split_parts (concat (chunks (post empty_file_body))) (asc ''X'')
      = [] @ (''filename='' @ QUOTE @ ''a'' @ QUOTE @ CRLFCRLF) # []"
    by (simp add: post_body split_empty_file)
  then have mem: "''filename='' @ QUOTE @ ''a'' @ QUOTE @ CRLFCRLF
      \<in> set (split_parts (concat (chunks (post empty_file_body))) (asc ''X''))"
    by simp
  have none: "\<forall>q\<in>set []. declared_filename q = None" by simp
  note inst = empty_payload_forwarded [OF post_method base post_boundary asc_X mem
      declared_empty_file payload_empty_file, of created]
  from inst parts none
  have "snd (handler (Some ''http://processor'') created (post empty_file_body)) =
      [\<lparr>url = ''http://processor'' @ ''/upload'', field = ''file'', upload_filename = asc ''a'',
        upload_content = []\<rparr>]" by blast
  moreover have "fst (handler (Some ''http://processor'') created (post empty_file_body)) =
      Relay 201 (Some (asc ''application/json'')) ''{}''"
    using handler_forward [OF post_method base post_boundary asc_X, of empty_file_body
        "[]" "asc ''a''" created]
      mp [OF spec [OF spec [OF conjunct2 [OF conjunct2 [OF inst]]]] conjI [OF parts none]]
    by (simp add: parts created_def)
  ultimately show ?thesis by (simp add: prod_eq_iff)
qed

subsection \<open>No file in the request\<close>

text \<open>
  Claim C6. For a POST request with \<open>PROCESSOR_URL\<close> set and a boundary in its
  Content-Type: when no part declares a filename, the handler answers with status 400
  and \<open>No file found in request\<close> and makes no downstream call. This is so in
  particular when the body contains no \<open>--\<close> followed by the boundary, or does not
  contain the boundary at all: there are no parts then.
\<close>

theorem no_file_found:
  assumes "http_method req = ''POST''" and "base \<noteq> []"
    and "getBoundary (content_type req) = Inr (Some boundary)" and "boundary \<noteq> []"
  shows "((\<forall>p\<in>set (split_parts (concat (chunks req)) boundary). declared_filename p = None)
           \<longrightarrow> handler (Some base) fetch req = (Json 400 ''No file found in request'' None, [])) \<and>
         (\<not> (\<exists>a b. concat (chunks req) = a @ (''--'' @ Buffer_from boundary) @ b)
           \<longrightarrow> split_parts (concat (chunks req)) boundary = [] \<and>
               handler (Some base) fetch req = (Json 400 ''No file found in request'' None, [])) \<and>
         (\<not> (\<exists>a b. concat (chunks req) = a @ Buffer_from boundary @ b)
           \<longrightarrow> split_parts (concat (chunks req)) boundary = [] \<and>
               handler (Some base) fetch req = (Json 400 ''No file found in request'' None, []))"
proof -
  let ?parts = "split_parts (concat (chunks req)) boundary"
  have gen: "handler (Some base) fetch req = (Json 400 ''No file found in request'' None, [])"
    if "\<forall>p\<in>set ?parts. declared_filename p = None"
  proof -
    from that have "select_file ?parts (None, asc ''file.pdf'') = (None, asc ''file.pdf'')"
      by (rule select_file_none)
    from handler_no_file [OF assms this] show ?thesis .
  qed
  have marker: "?parts = [] \<and>
      handler (Some base) fetch req = (Json 400 ''No file found in request'' None, [])"
    if "\<not> (\<exists>a b. concat (chunks req) = a @ (''--'' @ Buffer_from boundary) @ b)"
  proof -
    from that have "?parts = []" by (rule no_marker_no_parts)
    with gen show ?thesis by simp
  qed
  have "\<not> (\<exists>a b. concat (chunks req) = a @ (''--'' @ Buffer_from boundary) @ b)"
    if no: "\<not> (\<exists>a b. concat (chunks req) = a @ Buffer_from boundary @ b)"
  proof
    assume "\<exists>a b. concat (chunks req) = a @ (''--'' @ Buffer_from boundary) @ b"
    then obtain a b where "concat (chunks req) = (a @ ''--'') @ Buffer_from boundary @ b"
      by auto
    with no show False by blast
  qed
  with gen marker show ?thesis by blast
qed

theorem no_file_found_witness:
  "handler (Some ''http://processor'') created (post field_body)
     = (Json 400 ''No file found in request'' None, []) \<and>
   split_parts ''no boundary in here'' (asc ''X'') = [] \<and>
   handler (Some ''http://processor'') created (post ''no boundary in here'')
     = (Json 400 ''No file found in request'' None, [])"
proof -
  have base: "''http://processor'' \<noteq> []" by simp
  have "\<forall>p\<in>set (split_parts (concat (chunks (post field_body))) (asc ''X'')).
      declared_filename p = None"
    unfolding post_body split_field using declared_field by simp
  with no_file_found [OF post_method base post_boundary asc_X, of field_body created]
  have 1: "handler (Some ''http://processor'') created (post field_body)
     = (Json 400 ''No file found in request'' None, [])" by blast
  have "first_index (Buffer_from (asc ''X'')) ''no boundary in here'' = None"
    by (simp add: Buffer_from_asc)
  then have "\<not> (\<exists>a b. concat (chunks (post ''no boundary in here''))
      = a @ Buffer_from (asc ''X'') @ b)"
    unfolding post_body by (rule first_index_None_iff [THEN iffD1])
  with no_file_found [OF post_method base post_boundary asc_X, of "''no boundary in here''" created]
  have "split_parts (concat (chunks (post ''no boundary in here''))) (asc ''X'') = [] \<and>
      handler (Some ''http://processor'') created (post ''no boundary in here'')
        = (Json 400 ''No file found in request'' None, [])" by blast
  with 1 show ?thesis by (simp add: post_body)
qed

subsection \<open>The default filename\<close>

lemma select_file_Some:
  assumes "select_file parts (None, d) = (Some buf, f)"
  shows "\<exists>p\<in>set parts. declared_filename p = Some f \<and> payload p = Some buf"
proof -
  from select_file_cases [OF assms]
  have "\<exists>p\<in>set parts. declared_filename p = Some f \<and> payload p = Some buf \<and> Some buf \<noteq> None"
    by (elim disjE conjE) simp_all
  then show ?thesis by simp
qed

text \<open>
  Claim C8. Whenever the selector ends with a buffer, the filename it ends with is the
  capture of \<open>filename="..."\<close> in the header block of a part, the buffer is the
  payload of that part, and the result is the same whatever name the loop started
  with. So every call the handler makes to the downstream service carries the
  filename declared by a part of the request, and the initial \<open>file.pdf\<close> is never
  what is sent: the assignment of the capture always comes before.
\<close>

theorem default_filename_unused:
  "(select_file parts (None, d) = (Some buf, f) \<longrightarrow>
      (\<exists>p\<in>set parts. declared_filename p = Some f \<and> payload p = Some buf) \<and>
      select_file parts (None, d') = (Some buf, f)) \<and>
   (\<forall>form\<in>set (snd (handler env fetch req)).
      \<exists>boundary. getBoundary (content_type req) = Inr (Some boundary) \<and>
        (\<exists>p\<in>set (split_parts (concat (chunks req)) boundary).
           declared_filename p = Some (upload_filename form) \<and>
           payload p = Some (upload_content form)))"
proof (intro conjI impI ballI)
  assume sel: "select_file parts (None, d) = (Some buf, f)"
  from sel show "\<exists>p\<in>set parts. declared_filename p = Some f \<and> payload p = Some buf"
    by (rule select_file_Some)
  from sel show "select_file parts (None, d') = (Some buf, f)"
    by (rule select_file_default_irrelevant)
next
  fix form
  assume "form \<in> set (snd (handler env fetch req))"
  from handler_calls [OF this] obtain boundary where
    b: "getBoundary (content_type req) = Inr (Some boundary)"
    and sel: "select_file (split_parts (concat (chunks req)) boundary) (None, asc ''file.pdf'')
         = (Some (upload_content form), upload_filename form)" by (elim exE conjE)
  from sel
  have "\<exists>p\<in>set (split_parts (concat (chunks req)) boundary).
      declared_filename p = Some (upload_filename form) \<and> payload p = Some (upload_content form)"
    by (rule select_file_Some)
  with b show "\<exists>boundary. getBoundary (content_type req) = Inr (Some boundary) \<and>
        (\<exists>p\<in>set (split_parts (concat (chunks req)) boundary).
           declared_filename p = Some (upload_filename form) \<and>
           payload p = Some (upload_content form))" by blast
qed

theorem default_filename_unused_witness:
  "select_file [''filename='' @ QUOTE @ ''a.txt'' @ QUOTE @ CRLFCRLF @ ''DATA'']
     (None, asc ''file.pdf'') = (Some ''DATA'', asc ''a.txt'') \<and>
   select_file [''filename='' @ QUOTE @ ''a.txt'' @ QUOTE @ CRLFCRLF @ ''DATA'']
     (None, asc ''another default'') = (Some ''DATA'', asc ''a.txt'')"
proof -
  have d: "declared_filename (''filename='' @ QUOTE @ ''a.txt'' @ QUOTE @ CRLFCRLF @ ''DATA'')
      = Some (asc ''a.txt'')"
    by (simp add: declared_filename_def header_block_def CRLFCRLF_def CRLF_def QUOTE_def
        toString_ascii asc_def filename_at_def line_terminator_def)
  have p: "payload (''filename='' @ QUOTE @ ''a.txt'' @ QUOTE @ CRLFCRLF @ ''DATA'') = Some ''DATA''"
    by (simp add: payload_def CRLFCRLF_def CRLF_def QUOTE_def)
  have 1: "select_file [''filename='' @ QUOTE @ ''a.txt'' @ QUOTE @ CRLFCRLF @ ''DATA'']
     (None, asc ''file.pdf'') = (Some ''DATA'', asc ''a.txt'')"
    by (simp only: select_file_hit [OF d] p)
  note inst = default_filename_unused
    [of "[''filename='' @ QUOTE @ ''a.txt'' @ QUOTE @ CRLFCRLF @ ''DATA'']" "asc ''file.pdf''"
        "''DATA''" "asc ''a.txt''" "asc ''another default''"]
  from mp [OF conjunct1 [OF inst] 1]
  have "select_file [''filename='' @ QUOTE @ ''a.txt'' @ QUOTE @ CRLFCRLF @ ''DATA'']
     (None, asc ''another default'') = (Some ''DATA'', asc ''a.txt'')"
    by (rule conjunct2)
  with 1 show ?thesis by (rule conjI)
qed

subsection \<open>The located occurrences\<close>

lemma consecutive_Cons_hd: "consecutive len xs = y # ys \<Longrightarrow> xs \<noteq> [] \<and> hd xs = y"
  by (cases xs) auto

lemma set_consecutive: "set (consecutive len xs) \<subseteq> set xs"
proof (induction len xs rule: consecutive.induct)
  case (1 len)
  then show ?case by simp
next
  case (2 len p ps)
  have "set (dropWhile (\<lambda>q. q < p + len) ps) \<subseteq> set ps"
    by (auto dest: set_dropWhileD)
  with 2 show ?case by auto
qed

lemma length_consecutive: "length (consecutive len xs) \<le> length xs"
proof (induction len xs rule: consecutive.induct)
  case (1 len)
  then show ?case by simp
next
  case (2 len p ps)
  have "length (dropWhile (\<lambda>q. q < p + len) ps) \<le> length ps"
    by (rule length_dropWhile_le)
  with 2 show ?case by simp
qed

lemma adjacent_Cons: "adjacent (x # y # ys) = (x, y) # adjacent (y # ys)"
  by (simp add: adjacent_def)

lemma adjacent_consecutive_gap:
  "(a, b) \<in> set (adjacent (consecutive len xs)) \<Longrightarrow> a + len \<le> b"
proof (induction len xs rule: consecutive.induct)
  case (1 len)
  then show ?case by (simp add: adjacent_def)
next
  case (2 len p ps)
  let ?zs = "dropWhile (\<lambda>q. q < p + len) ps"
  show ?case
  proof (cases "consecutive len ?zs")
    case Nil
    with "2.prems" show ?thesis by (simp add: adjacent_def)
  next
    case (Cons y ys)
    from consecutive_Cons_hd [OF Cons] have ne: "?zs \<noteq> []" and hd: "hd ?zs = y" by simp_all
    from ne have "\<not> hd ?zs < p + len" by (rule hd_dropWhile)
    with hd have gap: "p + len \<le> y" by simp
    from "2.prems" Cons have "(a, b) = (p, y) \<or> (a, b) \<in> set (adjacent (consecutive len ?zs))"
      by (simp add: adjacent_Cons)
    with gap "2.IH" show ?thesis by auto
  qed
qed

lemma adjacent_subset: "(a, b) \<in> set (adjacent xs) \<Longrightarrow> a \<in> set xs \<and> b \<in> set xs"
  unfolding adjacent_def by (cases xs) (auto dest: set_zip_leftD set_zip_rightD)

lemma occurrence_bound:
  assumes "x \<in> set (occurrences marker body)"
  shows "x + length marker \<le> length body"
proof -
  from assms have "prefix marker (drop x body)" and "x < length body"
    by (simp_all add: occurrences_def occurs_at_def)
  from prefix_length_le [OF this(1)] this(2) show ?thesis by simp
qed

lemma located_pair:
  assumes "(a, b) \<in> set (adjacent (located marker body))"
  shows "a + length marker \<le> b \<and> b + length marker \<le> length body"
proof -
  from assms have "a + length marker \<le> b"
    unfolding located_def by (rule adjacent_consecutive_gap)
  moreover from adjacent_subset [OF assms] set_consecutive
  have "b \<in> set (occurrences marker body)" unfolding located_def by blast
  then have "b + length marker \<le> length body" by (rule occurrence_bound)
  ultimately show ?thesis by simp
qed

lemma length_adjacent: "length (adjacent xs) = length xs - 1"
  by (simp add: adjacent_def)

subsection \<open>The part splitter against its contract\<close>

text \<open>
  Claim C2. For every body and boundary \<open>B\<close>, with the marker \<open>--B\<close>: the parts are
  exactly the byte ranges between each located occurrence of the marker and the next
  one, from 2 bytes after the end of the first to 2 bytes before the start of the
  second; there is one part fewer than located occurrences, so the last occurrence has
  no part of its own; and a body with fewer than two occurrences of the marker has no
  parts.
\<close>

theorem split_parts_spec:
  "split_parts body B = spec_parts (''--'' @ Buffer_from B) body \<and>
   length (split_parts body B) = length (located (''--'' @ Buffer_from B) body) - 1 \<and>
   (length (occurrences (''--'' @ Buffer_from B) body) < 2 \<longrightarrow> split_parts body B = [])"
proof -
  define m where "m = ''--'' @ Buffer_from B"
  have m: "m = Buffer_from (asc ''--'' @ B)" by (simp add: m_def marker_dashes)
  have parts: "split_parts body B =
      map (\<lambda>(a, b). slice body (int a + int (length m) + 2) (Some (int b - 2)))
        (adjacent (located m body))"
    by (rule split_parts_located [OF m])
  have same: "slice body (int a + int (length m) + 2) (Some (int b - 2)) =
      between body (a + length m + 2) (b - 2)"
    if "(a, b) \<in> set (adjacent (located m body))" for a b
  proof -
    have "2 \<le> length m" by (simp add: m_def)
    with located_pair [OF that] have "2 \<le> b" by simp
    then have "nat (int b - 2) = b - 2" "0 \<le> int b - 2" by simp_all
    moreover have "nat (int a + int (length m) + 2) = a + length m + 2" by simp
    moreover have "0 \<le> int a + int (length m) + 2" by simp
    ultimately show ?thesis by (simp only: slice_between between_def)
  qed
  have 1: "split_parts body B = spec_parts m body"
    unfolding parts spec_parts_def by (rule map_cong) (auto simp: same)
  have 2: "length (split_parts body B) = length (located m body) - 1"
    unfolding parts by (simp add: length_adjacent)
  have 3: "split_parts body B = []" if "length (occurrences m body) < 2"
  proof -
    from that length_consecutive [of "length m" "occurrences m body"]
    have "length (located m body) - 1 = 0" by (simp add: located_def)
    with 2 show ?thesis by simp
  qed
  from 1 2 3 show ?thesis unfolding m_def by blast
qed

lemma spec_parts_two: "spec_parts ''--X'' two_part_body = [''ab'', ''c'']"
  by code_simp

lemma located_two: "located ''--X'' two_part_body = [0, 9, 17]"
  by code_simp

lemma occurrences_one: "occurrences ''--X'' single_marker_body = [0]"
  by code_simp

theorem split_parts_spec_witness:
  "split_parts two_part_body (asc ''X'') = [''ab'', ''c''] \<and>
   length (split_parts two_part_body (asc ''X'')) = length [0::nat, 9, 17] - 1 \<and>
   split_parts single_marker_body (asc ''X'') = []"
proof -
  have b: "''--'' @ Buffer_from (asc ''X'') = ''--X''" by (simp add: Buffer_from_asc)
  from split_parts_spec [of two_part_body "asc ''X''"]
  have "split_parts two_part_body (asc ''X'') = [''ab'', ''c''] \<and>
    length (split_parts two_part_body (asc ''X'')) = length [0::nat, 9, 17] - 1"
    unfolding b spec_parts_two located_two by simp
  moreover from split_parts_spec [of single_marker_body "asc ''X''"]
  have "length (occurrences ''--X'' single_marker_body) < 2
      \<longrightarrow> split_parts single_marker_body (asc ''X'') = []"
    unfolding b by blast
  then have "split_parts single_marker_body (asc ''X'') = []"
    unfolding occurrences_one by simp
  ultimately show ?thesis by simp
qed

subsection \<open>The offsets of the slices\<close>

text \<open>
  Claim C9. The splitter is a total function (its loop terminates for every body and
  boundary, and no step of it can fail). Each part is the slice of the body between
  \<open>start + boundaryBuf.length + 2\<close> and \<open>next - 2\<close> for a located occurrence
  \<open>start\<close> and the next one \<open>next\<close>; both offsets lie between 0 and the length of
  the body, so that no offset counts from the end or is clamped; and when the first
  offset is at or beyond the second, the part is the empty buffer.
\<close>

theorem split_parts_offsets_in_range:
  "split_parts body B =
     map (\<lambda>(start, next).
            slice body (int start + int (length (''--'' @ Buffer_from B)) + 2) (Some (int next - 2)))
       (adjacent (located (''--'' @ Buffer_from B) body)) \<and>
   (\<forall>(start, next)\<in>set (adjacent (located (''--'' @ Buffer_from B) body)).
      0 \<le> int start + int (length (''--'' @ Buffer_from B)) + 2 \<and>
      int start + int (length (''--'' @ Buffer_from B)) + 2 \<le> int (length body) \<and>
      0 \<le> int next - 2 \<and> int next - 2 \<le> int (length body) \<and>
      (int next - 2 \<le> int start + int (length (''--'' @ Buffer_from B)) + 2 \<longrightarrow>
         slice body (int start + int (length (''--'' @ Buffer_from B)) + 2) (Some (int next - 2))
           = []))"
proof -
  define m where "m = ''--'' @ Buffer_from B"
  have m: "m = Buffer_from (asc ''--'' @ B)" by (simp add: m_def marker_dashes)
  have len: "2 \<le> length m" by (simp add: m_def)
  have parts: "split_parts body B =
      map (\<lambda>(start, next). slice body (int start + int (length m) + 2) (Some (int next - 2)))
        (adjacent (located m body))"
    by (rule split_parts_located [OF m])
  have range: "0 \<le> int a + int (length m) + 2 \<and>
      int a + int (length m) + 2 \<le> int (length body) \<and>
      0 \<le> int b - 2 \<and> int b - 2 \<le> int (length body) \<and>
      (int b - 2 \<le> int a + int (length m) + 2 \<longrightarrow>
         slice body (int a + int (length m) + 2) (Some (int b - 2)) = [])"
    if ab: "(a, b) \<in> set (adjacent (located m body))" for a b
  proof -
    from located_pair [OF ab]
    have gap: "a + length m \<le> b" and fit: "b + length m \<le> length body" by simp_all
    have s0: "0 \<le> int a + int (length m) + 2" by simp
    from gap fit len have s1: "int a + int (length m) + 2 \<le> int (length body)" by linarith
    from gap len have e0: "0 \<le> int b - 2" by linarith
    from fit have e1: "int b - 2 \<le> int (length body)" by linarith
    have "slice body (int a + int (length m) + 2) (Some (int b - 2)) = []"
      if le: "int b - 2 \<le> int a + int (length m) + 2"
    proof -
      from le have "nat (int b - 2) - nat (int a + int (length m) + 2) = 0" by simp
      with slice_between [OF s0 e0, of body] show ?thesis by simp
    qed
    with s0 s1 e0 e1 show ?thesis by blast
  qed
  then have "\<forall>(start, next)\<in>set (adjacent (located m body)).
      0 \<le> int start + int (length m) + 2 \<and>
      int start + int (length m) + 2 \<le> int (length body) \<and>
      0 \<le> int next - 2 \<and> int next - 2 \<le> int (length body) \<and>
      (int next - 2 \<le> int start + int (length m) + 2 \<longrightarrow>
         slice body (int start + int (length m) + 2) (Some (int next - 2)) = [])"
    by blast
  with parts show ?thesis unfolding m_def by (rule conjI)
qed

lemma located_touching: "located ''--X'' touching_body = [0, 3]"
  by code_simp

theorem split_parts_offsets_in_range_witness:
  "split_parts touching_body (asc ''X'') = [[]] \<and>
   int 3 - 2 \<le> int 0 + int (length ''--X'') + 2 \<and>
   int 0 + int (length ''--X'') + 2 \<le> int (length touching_body)"
proof -
  have b: "''--'' @ Buffer_from (asc ''X'') = ''--X''" by (simp add: Buffer_from_asc)
  from split_parts_offsets_in_range [of touching_body "asc ''X''"]
  have "split_parts touching_body (asc ''X'') = [slice touching_body 5 (Some 1)] \<and>
      5 \<le> int (length touching_body) \<and> slice touching_body 5 (Some 1) = []"
    unfolding b located_touching by (simp add: adjacent_def)
  then show ?thesis by (simp add: touching_body_def CRLF_def)
qed

subsection \<open>A well-formed body with one file part\<close>













subsection \<open>A payload that contains the bytes of the marker\<close>







end
